theory Spec2Isabelle
  imports Main "HOL-Library.Word"
begin

section \<open>The cache of package pokecache\<close>

text \<open>
  The Go source (pokecache.go) keeps a map from string keys to entries, each a payload
  with the instant of its insertion. \<open>Add\<close>, \<open>Get\<close> and \<open>Reap\<close> take the mutex of the
  cache for their whole body, so every call is one atomic step on the map; the model
  passes the map explicitly and leaves the mutex out.

  A payload is a Go byte slice, modelled by the bytes it holds (a nil slice and an
  empty one are both the empty list). The cache stores the slice it is given and
  returns it without copying.

  Instants are readings of Go's monotonic clock in nanoseconds (\<open>time.Now()\<close> always
  carries one); the reading a method takes is a parameter \<open>now\<close> of its model.
  The model covers caches built by \<open>NewCache\<close>, whose \<open>entries\<close> map is allocated.
\<close>

type_synonym time = int
type_synonym duration = int
type_synonym byte = "8 word"

record cacheEntry =
  createdAt :: time
  data :: "byte list"

record Cache =
  entries :: "string \<rightharpoonup> cacheEntry"

datatype error = Error string

subsection \<open>Durations\<close>

definition Minute :: duration where
  "Minute = 60 * 1000000000"

definition maxDuration :: duration where
  "maxDuration = 2 ^ 63 - 1"

definition minDuration :: duration where
  "minDuration = - (2 ^ 63)"

text \<open>
  \<open>time.Since(t)\<close> is \<open>time.Now().Sub(t)\<close>: the difference of the two readings as a
  signed 64-bit count of nanoseconds, saturating at both ends of the range.
\<close>

definition Since :: "time \<Rightarrow> time \<Rightarrow> duration" where
  "Since now t =
     (let d = now - t
      in if maxDuration < d then maxDuration
         else if d < minDuration then minDuration
         else d)"

subsection \<open>Add and Get\<close>

text \<open>
  \<open>Add\<close> stores the payload under the key, stamped with the current instant, and
  returns the nil error. \<open>Get\<close> returns the payload of the key, or the error
  "key not found" with a nil payload. Both return the cache they leave behind.
\<close>

definition Add :: "time \<Rightarrow> string \<Rightarrow> byte list \<Rightarrow> Cache \<Rightarrow> error option \<times> Cache" where
  "Add now key dat c =
     (None, c\<lparr>entries := (entries c)(key \<mapsto> \<lparr>createdAt = now, data = dat\<rparr>)\<rparr>)"

definition Get :: "string \<Rightarrow> Cache \<Rightarrow> (error + byte list) \<times> Cache" where
  "Get key c =
     (case entries c key of
        None \<Rightarrow> (Inl (Error ''key not found''), c)
      | Some entry \<Rightarrow> (Inr (data entry), c))"

subsection \<open>Reap\<close>

text \<open>
  \<open>Reap\<close> ranges over the map and deletes each entry that is older than five minutes.
  Go fixes no order for a range over a map, so the order is a parameter: the list of
  the keys the loop visits. A key deleted before the loop reaches it is not visited;
  the body reads the entry of the key under visit from the map. The sweep holds the
  mutex throughout and its clock readings are taken as the one instant \<open>now\<close>.
\<close>

fun reap_range :: "time \<Rightarrow> string list \<Rightarrow> (string \<rightharpoonup> cacheEntry) \<Rightarrow> (string \<rightharpoonup> cacheEntry)" where
  "reap_range now [] m = m"
| "reap_range now (key # keys) m =
     (case m key of
        None \<Rightarrow> reap_range now keys m
      | Some entry \<Rightarrow>
          if Since now (createdAt entry) > 5 * Minute
          then reap_range now keys (m(key := None))
          else reap_range now keys m)"

definition Reap :: "time \<Rightarrow> string list \<Rightarrow> Cache \<Rightarrow> Cache" where
  "Reap now keys c = c\<lparr>entries := reap_range now keys (entries c)\<rparr>"

text \<open>A range over the map visits every key of the map once, in some order.\<close>

definition range_order :: "string list \<Rightarrow> (string \<rightharpoonup> cacheEntry) \<Rightarrow> bool" where
  "range_order keys m \<longleftrightarrow> distinct keys \<and> set keys = dom m"

text \<open>The time to live of an entry: the constant \<open>5 * time.Minute\<close> of \<open>Reap\<close>.\<close>

definition ttl :: duration where
  "ttl = 5 * Minute"

subsection \<open>ReapLoop and NewCache\<close>

text \<open>
  \<open>ReapLoop\<close> never returns: it sleeps five minutes, calls \<open>Reap\<close>, and starts over.
  \<open>NewCache\<close> allocates the map and starts one \<open>ReapLoop\<close> in a goroutine of its own.
  The goroutines that use a cache are modelled as one system that takes one atomic
  step at a time, the order the mutex imposes: the cache, the clock, and one item for
  each running \<open>ReapLoop\<close>, the instant at which its current \<open>time.Sleep\<close> began.

  Starting \<open>ReapLoop\<close>, by the \<open>go\<close> statement of \<open>NewCache\<close> or by a call of the
  exported method, adds a running loop whose first sleep begins now; the method has no
  guard. One turn of a running loop is \<open>ReapLoop_turn\<close>: \<open>time.Sleep\<close> returns no
  earlier than five minutes after it began (it may return later), \<open>Reap\<close> runs at the
  current instant, and the next sleep begins.
\<close>

record System =
  cache :: Cache
  clock :: time
  reapers :: "time list"

definition ReapLoop :: "System \<Rightarrow> System" where
  "ReapLoop s = s\<lparr>reapers := reapers s @ [clock s]\<rparr>"

definition ReapLoop_turn :: "nat \<Rightarrow> string list \<Rightarrow> System \<Rightarrow> System option" where
  "ReapLoop_turn i keys s =
     (if i < length (reapers s) \<and> reapers s ! i + 5 * Minute \<le> clock s
         \<and> range_order keys (entries (cache s))
      then Some (s\<lparr>cache := Reap (clock s) keys (cache s),
                   reapers := (reapers s)[i := clock s]\<rparr>)
      else None)"

definition NewCache :: "time \<Rightarrow> System" where
  "NewCache now = ReapLoop \<lparr>cache = \<lparr>entries = Map.empty\<rparr>, clock = now, reapers = []\<rparr>"

text \<open>The period of the sweeps: the constant \<open>5 * time.Minute\<close> of \<open>ReapLoop\<close>.\<close>

definition sweepInterval :: duration where
  "sweepInterval = 5 * Minute"

text \<open>
  The steps of the system: time passes (the clock never goes back); some goroutine
  calls \<open>Add\<close>, \<open>Get\<close> or the exported \<open>Reap\<close> at the current instant; the running
  loop number \<open>i\<close> takes a turn; some goroutine starts \<open>ReapLoop\<close>. A step whose
  condition fails is not a step of the system (\<open>None\<close>).
\<close>

datatype event =
    Tick nat
  | CallAdd string "byte list"
  | CallGet string
  | CallReap "string list"
  | Wake nat "string list"
  | CallReapLoop

fun exec :: "event \<Rightarrow> System \<Rightarrow> System option" where
  "exec (Tick d) s = Some (s\<lparr>clock := clock s + int d\<rparr>)"
| "exec (CallAdd key dat) s = Some (s\<lparr>cache := snd (Add (clock s) key dat (cache s))\<rparr>)"
| "exec (CallGet key) s = Some (s\<lparr>cache := snd (Get key (cache s))\<rparr>)"
| "exec (CallReap keys) s =
     (if range_order keys (entries (cache s))
      then Some (s\<lparr>cache := Reap (clock s) keys (cache s)\<rparr>)
      else None)"
| "exec (Wake i keys) s = ReapLoop_turn i keys s"
| "exec CallReapLoop s = Some (ReapLoop s)"

fun run :: "event list \<Rightarrow> System \<Rightarrow> System option" where
  "run [] s = Some s"
| "run (e # es) s = (case exec e s of None \<Rightarrow> None | Some s' \<Rightarrow> run es s')"

text \<open>
  The scheduling slack: in a timely state the loop that \<open>NewCache\<close> started (number 0)
  is less than \<open>eps\<close> late, that is, its current sleep began less than
  \<open>sweepInterval + eps\<close> ago.
\<close>

definition timely :: "duration \<Rightarrow> System \<Rightarrow> bool" where
  "timely eps s \<longleftrightarrow> reapers s \<noteq> [] \<and> clock s < reapers s ! 0 + sweepInterval + eps"

text \<open>
  Two conditions on the states of the system that the proofs below carry through a
  run. \<open>loop0_started\<close>: loop 0 exists and its current sleep began no later than now.
  \<open>pending k T\<close>: loop 0 exists and, if the key \<open>k\<close> is in the map, its entry was
  created at \<open>T\<close> and loop 0 has not swept after \<open>T + ttl\<close>.
\<close>

definition loop0_started :: "System \<Rightarrow> bool" where
  "loop0_started s \<longleftrightarrow> reapers s \<noteq> [] \<and> reapers s ! 0 \<le> clock s"

definition pending :: "string \<Rightarrow> time \<Rightarrow> System \<Rightarrow> bool" where
  "pending k T s \<longleftrightarrow> reapers s \<noteq> [] \<and>
     (case entries (cache s) k of
        None \<Rightarrow> True
      | Some e \<Rightarrow> createdAt e = T \<and> reapers s ! 0 \<le> T + ttl)"

lemmas model_defs = Add_def Get_def Reap_def ReapLoop_def ReapLoop_turn_def NewCache_def
  range_order_def Since_def Let_def Minute_def maxDuration_def minDuration_def

section \<open>Properties of Add and Get\<close>

text \<open>
  C1. Round trip: for every key and payload, \<open>Add\<close> followed at once by \<open>Get\<close> of the
  same key returns exactly the payload that was added.
\<close>

theorem add_get_roundtrip:
  "fst (Get k (snd (Add now k p c))) = Inr p"
  by (simp add: Add_def Get_def)

text \<open>
  C5. Replacement: a second \<open>Add\<close> of a key fully overwrites the first. The map holds
  one entry for the key, with the second payload and the instant of the second \<open>Add\<close>;
  the cache is the one the second \<open>Add\<close> alone would have left, and \<open>Get\<close> returns the
  second payload.
\<close>

theorem add_add_replaces:
  "entries (snd (Add t2 k p2 (snd (Add t1 k p1 c)))) k = Some \<lparr>createdAt = t2, data = p2\<rparr>
   \<and> snd (Add t2 k p2 (snd (Add t1 k p1 c))) = snd (Add t2 k p2 c)
   \<and> fst (Get k (snd (Add t2 k p2 (snd (Add t1 k p1 c))))) = Inr p2"
  by (simp add: Add_def Get_def)

text \<open>
  C8. \<open>Get\<close> never modifies the cache: on a hit and on a miss the cache it leaves is the
  cache it was given, so the payload and the creation instant of every entry, the entry
  looked up included, are as before.
\<close>

theorem get_leaves_cache_unchanged:
  "snd (Get k c) = c"
  by (simp add: Get_def split: option.split)

section \<open>Properties of Reap\<close>

text \<open>The saturation of \<open>Since\<close> plays no part in the comparison with five minutes.\<close>

lemma Since_exceeds_iff:
  "Since now t > 5 * Minute \<longleftrightarrow> now - t > ttl"
  by (simp add: Since_def Let_def ttl_def Minute_def maxDuration_def minDuration_def)

lemma reap_range_absent:
  "m k = None \<Longrightarrow> reap_range now keys m k = None"
  by (induction keys arbitrary: m) (auto split: option.split)

lemma reap_range_fresh:
  "m k = Some e \<Longrightarrow> \<not> ttl < now - createdAt e \<Longrightarrow> reap_range now keys m k = Some e"
proof (induction keys arbitrary: m)
  case Nil
  then show ?case by simp
next
  case (Cons key keys)
  show ?case
  proof (cases "key = k")
    case True
    with Cons show ?thesis
      by (simp add: Since_exceeds_iff)
  next
    case False
    then have "(m(key := None)) k = Some e"
      using Cons.prems(1) by simp
    with Cons show ?thesis
      by (simp split: option.split)
  qed
qed

lemma reap_range_stale:
  "m k = Some e \<Longrightarrow> ttl < now - createdAt e \<Longrightarrow> k \<in> set keys \<Longrightarrow>
   reap_range now keys m k = None"
proof (induction keys arbitrary: m)
  case Nil
  then show ?case by simp
next
  case (Cons key keys)
  show ?case
  proof (cases "key = k")
    case True
    with Cons.prems show ?thesis
      by (simp add: Since_exceeds_iff reap_range_absent)
  next
    case False
    with Cons.prems have "k \<in> set keys" by simp
    with False Cons.prems Cons.IH show ?thesis
      by (auto split: option.split)
  qed
qed

lemma reap_range_survivor:
  "reap_range now keys m k = Some e \<Longrightarrow> m k = Some e"
proof (induction keys arbitrary: m)
  case Nil
  then show ?case by simp
next
  case (Cons key keys)
  show ?case
  proof (cases "m key")
    case None
    with Cons show ?thesis by simp
  next
    case (Some entry)
    show ?thesis
    proof (cases "Since now (createdAt entry) > 5 * Minute")
      case True
      with Some Cons.prems have "reap_range now keys (m(key := None)) k = Some e"
        by simp
      then have "(m(key := None)) k = Some e"
        by (rule Cons.IH)
      then show ?thesis
        by (simp split: if_splits)
    next
      case False
      with Some Cons show ?thesis by simp
    qed
  qed
qed

lemma reap_range_eq:
  assumes "set keys = dom m"
  shows "reap_range now keys m =
    (\<lambda>k. case m k of None \<Rightarrow> None
       | Some e \<Rightarrow> if ttl < now - createdAt e then None else Some e)"
proof
  fix k
  show "reap_range now keys m k =
    (case m k of None \<Rightarrow> None
       | Some e \<Rightarrow> if ttl < now - createdAt e then None else Some e)"
  proof (cases "m k")
    case None
    then show ?thesis by (simp add: reap_range_absent)
  next
    case (Some e)
    with assms have "k \<in> set keys" by auto
    with Some show ?thesis
      by (simp add: reap_range_stale reap_range_fresh)
  qed
qed

lemma reap_range_no_stale_id:
  "(\<And>k e. m k = Some e \<Longrightarrow> \<not> ttl < now - createdAt e) \<Longrightarrow> reap_range now keys m = m"
proof (induction keys arbitrary: m)
  case Nil
  then show ?case by simp
next
  case (Cons key keys)
  then show ?case
    by (auto simp: Since_exceeds_iff split: option.split)
qed

text \<open>
  C2. For every cache and every current instant, \<open>Reap\<close> removes exactly the entries
  whose age, the current instant minus \<open>createdAt\<close>, strictly exceeds the time to live
  of five minutes, and keeps every entry whose age is at most that, whatever the order
  in which the range visits the keys.
\<close>

theorem reap_removes_exactly_stale:
  assumes "range_order keys (entries c)"
  shows "entries (Reap now keys c) =
      (\<lambda>k. case entries c k of None \<Rightarrow> None
         | Some e \<Rightarrow> if ttl < now - createdAt e then None else Some e)
    \<and> ttl = 5 * 60 * 1000000000"
  using assms
  by (simp add: Reap_def range_order_def reap_range_eq) (simp add: ttl_def Minute_def)

theorem reap_removes_exactly_stale_witness:
  "range_order [''a'', ''b'']
      (entries \<lparr>entries = [''a'' \<mapsto> \<lparr>createdAt = 0, data = [1]\<rparr>,
                             ''b'' \<mapsto> \<lparr>createdAt = 7, data = [2]\<rparr>]\<rparr>)
   \<and> entries (Reap 300000000005 [''a'', ''b'']
        \<lparr>entries = [''a'' \<mapsto> \<lparr>createdAt = 0, data = [1]\<rparr>,
                    ''b'' \<mapsto> \<lparr>createdAt = 7, data = [2]\<rparr>]\<rparr>) ''a'' = None
   \<and> entries (Reap 300000000005 [''a'', ''b'']
        \<lparr>entries = [''a'' \<mapsto> \<lparr>createdAt = 0, data = [1]\<rparr>,
                    ''b'' \<mapsto> \<lparr>createdAt = 7, data = [2]\<rparr>]\<rparr>) ''b''
       = Some \<lparr>createdAt = 7, data = [2]\<rparr>"
proof -
  have h: "range_order [''a'', ''b'']
      (entries \<lparr>entries = [''a'' \<mapsto> \<lparr>createdAt = 0, data = [1]\<rparr>,
                             ''b'' \<mapsto> \<lparr>createdAt = 7, data = [2]\<rparr>]\<rparr>)"
    by (auto simp: range_order_def)
  from reap_removes_exactly_stale [OF h, of 300000000005] h
  show ?thesis by (simp add: ttl_def Minute_def)
qed

text \<open>
  C7. \<open>Reap\<close> is idempotent: at a fixed current instant, a second sweep right after a
  first one, with no insertion in between, leaves the cache of the first sweep as it is.
\<close>

theorem reap_idempotent:
  assumes "range_order keys (entries c)"
      and "range_order keys' (entries (Reap now keys c))"
  shows "Reap now keys' (Reap now keys c) = Reap now keys c"
proof -
  from assms(1) have "set keys = dom (entries c)"
    by (simp add: range_order_def)
  then have "\<And>k e. reap_range now keys (entries c) k = Some e \<Longrightarrow> \<not> ttl < now - createdAt e"
    by (auto simp: reap_range_eq split: option.splits if_splits)
  then have "reap_range now keys' (reap_range now keys (entries c)) = reap_range now keys (entries c)"
    by (rule reap_range_no_stale_id)
  then show ?thesis by (simp add: Reap_def)
qed

theorem reap_idempotent_witness:
  "range_order [''a'', ''b'']
      (entries \<lparr>entries = [''a'' \<mapsto> \<lparr>createdAt = 0, data = [1]\<rparr>,
                             ''b'' \<mapsto> \<lparr>createdAt = 7, data = [2]\<rparr>]\<rparr>)
   \<and> range_order [''b'']
      (entries (Reap 300000000005 [''a'', ''b'']
        \<lparr>entries = [''a'' \<mapsto> \<lparr>createdAt = 0, data = [1]\<rparr>,
                    ''b'' \<mapsto> \<lparr>createdAt = 7, data = [2]\<rparr>]\<rparr>))
   \<and> Reap 300000000005 [''b''] (Reap 300000000005 [''a'', ''b'']
        \<lparr>entries = [''a'' \<mapsto> \<lparr>createdAt = 0, data = [1]\<rparr>,
                    ''b'' \<mapsto> \<lparr>createdAt = 7, data = [2]\<rparr>]\<rparr>)
     = Reap 300000000005 [''a'', ''b'']
        \<lparr>entries = [''a'' \<mapsto> \<lparr>createdAt = 0, data = [1]\<rparr>,
                    ''b'' \<mapsto> \<lparr>createdAt = 7, data = [2]\<rparr>]\<rparr>"
proof -
  have h1: "range_order [''a'', ''b'']
      (entries \<lparr>entries = [''a'' \<mapsto> \<lparr>createdAt = 0, data = [1]\<rparr>,
                             ''b'' \<mapsto> \<lparr>createdAt = 7, data = [2]\<rparr>]\<rparr>)"
    by (auto simp: range_order_def)
  have h2: "range_order [''b'']
      (entries (Reap 300000000005 [''a'', ''b'']
        \<lparr>entries = [''a'' \<mapsto> \<lparr>createdAt = 0, data = [1]\<rparr>,
                    ''b'' \<mapsto> \<lparr>createdAt = 7, data = [2]\<rparr>]\<rparr>))"
    by (auto simp: range_order_def Reap_def Since_def Let_def Minute_def
          maxDuration_def minDuration_def split: if_splits)
  from reap_idempotent [OF h1 h2] h1 h2 show ?thesis by simp
qed

text \<open>
  C10. \<open>Reap\<close> never inserts an entry and never alters one it keeps: every entry of the
  cache after the sweep is an entry of the cache before it, with the same payload and
  the same \<open>createdAt\<close>, and the keys after the sweep are among the keys before it.
\<close>

theorem reap_only_removes:
  "(\<forall>k e. entries (Reap now keys c) k = Some e \<longrightarrow> entries c k = Some e)
   \<and> dom (entries (Reap now keys c)) \<subseteq> dom (entries c)"
  by (auto simp: Reap_def dest: reap_range_survivor)

theorem reap_only_removes_witness:
  "(\<exists>e. entries (Reap 300000000005 [''a'', ''b'']
        \<lparr>entries = [''a'' \<mapsto> \<lparr>createdAt = 0, data = [1]\<rparr>,
                    ''b'' \<mapsto> \<lparr>createdAt = 7, data = [2]\<rparr>]\<rparr>) ''b'' = Some e
      \<and> entries \<lparr>entries = [''a'' \<mapsto> \<lparr>createdAt = 0, data = [1]\<rparr>,
                    ''b'' \<mapsto> \<lparr>createdAt = 7, data = [2]\<rparr>]\<rparr> ''b'' = Some e)
   \<and> ''b'' \<in> dom (entries \<lparr>entries = [''a'' \<mapsto> \<lparr>createdAt = 0, data = [1]\<rparr>,
                    ''b'' \<mapsto> \<lparr>createdAt = 7, data = [2]\<rparr>]\<rparr>)"
proof -
  have "entries (Reap 300000000005 [''a'', ''b'']
        \<lparr>entries = [''a'' \<mapsto> \<lparr>createdAt = 0, data = [1]\<rparr>,
                    ''b'' \<mapsto> \<lparr>createdAt = 7, data = [2]\<rparr>]\<rparr>) ''b''
       = Some \<lparr>createdAt = 7, data = [2]\<rparr>"
    by (simp add: Reap_def Since_def Let_def Minute_def maxDuration_def minDuration_def)
  with reap_only_removes [of 300000000005 "[''a'', ''b'']"
        "\<lparr>entries = [''a'' \<mapsto> \<lparr>createdAt = 0, data = [1]\<rparr>,
                    ''b'' \<mapsto> \<lparr>createdAt = 7, data = [2]\<rparr>]\<rparr>"]
  show ?thesis by auto
qed

section \<open>Properties of the running system\<close>

subsection \<open>What a step and a run preserve\<close>

lemma exec_clock_mono:
  "exec ev s = Some s' \<Longrightarrow> clock s \<le> clock s'"
  by (cases ev) (auto simp: ReapLoop_def ReapLoop_turn_def split: if_splits)

lemma run_clock_mono:
  "run es s = Some s' \<Longrightarrow> clock s \<le> clock s'"
proof (induction es arbitrary: s)
  case Nil
  then show ?case by simp
next
  case (Cons ev es)
  then obtain s1 where 1: "exec ev s = Some s1" and 2: "run es s1 = Some s'"
    by (auto split: option.splits)
  from 1 have "clock s \<le> clock s1" by (rule exec_clock_mono)
  also from 2 have "clock s1 \<le> clock s'" by (rule Cons.IH)
  finally show ?case .
qed

lemma exec_keeps_fresh:
  assumes "entries (cache s) k = Some e"
      and "exec ev s = Some s1"
      and "\<forall>dat. ev \<noteq> CallAdd k dat"
      and "clock s \<le> createdAt e + ttl"
    shows "entries (cache s1) k = Some e"
proof -
  from assms(4) have fresh: "\<not> ttl < clock s - createdAt e" by simp
  from assms(1,2,3) show ?thesis
    by (cases ev)
      (auto simp: Add_def Get_def Reap_def ReapLoop_def ReapLoop_turn_def
        reap_range_fresh [OF _ fresh] split: if_splits option.splits)
qed

lemma run_keeps_fresh:
  assumes "entries (cache s) k = Some e"
      and "run es s = Some s'"
      and "\<forall>dat. CallAdd k dat \<notin> set es"
      and "clock s' \<le> createdAt e + ttl"
    shows "entries (cache s') k = Some e"
  using assms
proof (induction es arbitrary: s)
  case Nil
  then show ?case by simp
next
  case (Cons ev es)
  then obtain s1 where 1: "exec ev s = Some s1" and 2: "run es s1 = Some s'"
    by (auto split: option.splits)
  from 2 have "clock s1 \<le> clock s'" by (rule run_clock_mono)
  moreover from 1 have "clock s \<le> clock s1" by (rule exec_clock_mono)
  ultimately have "clock s \<le> createdAt e + ttl"
    using Cons.prems(4) by simp
  moreover from Cons.prems(3) have "\<forall>dat. ev \<noteq> CallAdd k dat" by auto
  ultimately have 3: "entries (cache s1) k = Some e"
    using Cons.prems(1) 1 by (auto intro: exec_keeps_fresh)
  from Cons.prems(3) have 4: "\<forall>dat. CallAdd k dat \<notin> set es" by simp
  from 3 2 4 Cons.prems(4) show ?case
    by (rule Cons.IH)
qed

lemma exec_keeps_absent:
  assumes "entries (cache s) k = None"
      and "exec ev s = Some s1"
      and "\<forall>dat. ev \<noteq> CallAdd k dat"
    shows "entries (cache s1) k = None"
  using assms
  by (cases ev)
    (auto simp: Add_def Get_def Reap_def ReapLoop_def ReapLoop_turn_def reap_range_absent
      split: if_splits option.splits)

lemma run_keeps_absent:
  assumes "entries (cache s) k = None"
      and "run es s = Some s'"
      and "\<forall>dat. CallAdd k dat \<notin> set es"
    shows "entries (cache s') k = None"
  using assms
proof (induction es arbitrary: s)
  case Nil
  then show ?case by simp
next
  case (Cons ev es)
  then obtain s1 where 1: "exec ev s = Some s1" and 2: "run es s1 = Some s'"
    by (auto split: option.splits)
  from Cons.prems(3) have "\<forall>dat. ev \<noteq> CallAdd k dat" by auto
  with Cons.prems(1) 1 have 3: "entries (cache s1) k = None"
    by (auto intro: exec_keeps_absent)
  from Cons.prems(3) have 4: "\<forall>dat. CallAdd k dat \<notin> set es" by simp
  from 3 2 4 show ?case
    by (rule Cons.IH)
qed

lemma exec_reapers_length:
  "exec ev s = Some s' \<Longrightarrow>
   length (reapers s') = length (reapers s) + (if ev = CallReapLoop then 1 else 0)"
  by (cases ev) (auto simp: ReapLoop_def ReapLoop_turn_def split: if_splits)

lemma run_reapers_length:
  "run es s = Some s' \<Longrightarrow>
   length (reapers s') = length (reapers s) + count_list es CallReapLoop"
proof (induction es arbitrary: s)
  case Nil
  then show ?case by simp
next
  case (Cons ev es)
  then obtain s1 where 1: "exec ev s = Some s1" and 2: "run es s1 = Some s'"
    by (auto split: option.splits)
  from exec_reapers_length [OF 1] Cons.IH [OF 2] show ?case by simp
qed

lemma exec_loop0_started:
  "loop0_started s \<Longrightarrow> exec ev s = Some s' \<Longrightarrow> loop0_started s'"
  by (cases ev)
    (auto simp: loop0_started_def ReapLoop_def ReapLoop_turn_def nth_append nth_list_update
      split: if_splits)

lemma run_loop0_started:
  "loop0_started s \<Longrightarrow> run es s = Some s' \<Longrightarrow> loop0_started s'"
proof (induction es arbitrary: s)
  case Nil
  then show ?case by simp
next
  case (Cons ev es)
  then obtain s1 where 1: "exec ev s = Some s1" and 2: "run es s1 = Some s'"
    by (auto split: option.splits)
  from Cons.prems(1) 1 have "loop0_started s1" by (rule exec_loop0_started)
  then show ?case using 2 by (rule Cons.IH)
qed

lemma NewCache_loop0_started: "loop0_started (NewCache t0)"
  by (simp add: loop0_started_def NewCache_def ReapLoop_def)

lemma Reap_pending_key:
  assumes "range_order keys (entries c)"
      and "entries c k = Some e"
  shows "entries (Reap now keys c) k = (if ttl < now - createdAt e then None else Some e)"
  using assms by (simp add: Reap_def range_order_def reap_range_eq)

lemma exec_pending:
  assumes "pending k T s"
      and "exec ev s = Some s'"
      and "\<forall>dat. ev \<noteq> CallAdd k dat"
    shows "pending k T s'"
proof (cases ev)
  case (Tick d)
  with assms show ?thesis by (auto simp: pending_def split: option.splits)
next
  case (CallAdd key dat)
  with assms have "key \<noteq> k" by auto
  with assms CallAdd show ?thesis by (auto simp: pending_def Add_def split: option.splits)
next
  case (CallGet key)
  with assms show ?thesis by (auto simp: pending_def Get_def split: option.splits)
next
  case (CallReap keys)
  with assms(2) have ro: "range_order keys (entries (cache s))"
    and s': "s' = s\<lparr>cache := Reap (clock s) keys (cache s)\<rparr>"
    by (auto split: if_splits)
  show ?thesis
  proof (cases "entries (cache s) k")
    case None
    then have "entries (cache s') k = None"
      by (simp add: s' Reap_def reap_range_absent)
    with assms(1) show ?thesis by (simp add: pending_def s')
  next
    case (Some e)
    with assms(1) show ?thesis
      by (auto simp: pending_def s' Reap_pending_key [OF ro Some])
  qed
next
  case (Wake i keys)
  with assms(2) have ro: "range_order keys (entries (cache s))"
    and i: "i < length (reapers s)"
    and s': "s' = s\<lparr>cache := Reap (clock s) keys (cache s),
                     reapers := (reapers s)[i := clock s]\<rparr>"
    by (auto simp: ReapLoop_turn_def split: if_splits)
  show ?thesis
  proof (cases "entries (cache s) k")
    case None
    then have "entries (cache s') k = None"
      by (simp add: s' Reap_def reap_range_absent)
    with assms(1) show ?thesis by (simp add: pending_def s')
  next
    case (Some e)
    with assms(1) i show ?thesis
      by (auto simp: pending_def s' Reap_pending_key [OF ro Some] nth_list_update)
  qed
next
  case CallReapLoop
  with assms show ?thesis
    by (auto simp: pending_def ReapLoop_def nth_append split: option.splits)
qed

lemma run_pending:
  assumes "pending k T s"
      and "run es s = Some s'"
      and "\<forall>dat. CallAdd k dat \<notin> set es"
    shows "pending k T s'"
  using assms
proof (induction es arbitrary: s)
  case Nil
  then show ?case by simp
next
  case (Cons ev es)
  then obtain s1 where 1: "exec ev s = Some s1" and 2: "run es s1 = Some s'"
    by (auto split: option.splits)
  from Cons.prems(3) have "\<forall>dat. ev \<noteq> CallAdd k dat" by auto
  with Cons.prems(1) 1 have 3: "pending k T s1" by (rule exec_pending)
  from Cons.prems(3) have 4: "\<forall>dat. CallAdd k dat \<notin> set es" by simp
  from 3 2 4 show ?case by (rule Cons.IH)
qed

subsection \<open>Expiry\<close>

text \<open>
  C3. Expiry lower bound: an entry added at instant \<open>T\<close> and not added again is
  returned by \<open>Get\<close> at every instant strictly before \<open>T + ttl\<close>, whatever ran in
  between: any number of sweeps, by the running loops or by calls of \<open>Reap\<close>, and
  calls of \<open>Get\<close> and of \<open>Add\<close> on other keys. No sweep removes an entry before it is
  stale.
\<close>

theorem not_reaped_before_stale:
  assumes "exec (CallAdd k p) s0 = Some s1"
      and "run es s1 = Some s2"
      and "\<forall>dat. CallAdd k dat \<notin> set es"
      and "clock s2 < clock s0 + ttl"
    shows "fst (Get k (cache s2)) = Inr p"
proof -
  from assms(1) have "entries (cache s1) k = Some \<lparr>createdAt = clock s0, data = p\<rparr>"
    by (auto simp: Add_def)
  moreover from assms(4) have "clock s2 \<le> createdAt \<lparr>createdAt = clock s0, data = p\<rparr> + ttl"
    by simp
  ultimately have "entries (cache s2) k = Some \<lparr>createdAt = clock s0, data = p\<rparr>"
    using assms(2,3) by (auto intro: run_keeps_fresh)
  then show ?thesis by (simp add: Get_def)
qed

theorem not_reaped_before_stale_witness:
  "exec (CallAdd ''a'' [1, 2]) \<lparr>cache = \<lparr>entries = Map.empty\<rparr>, clock = 100, reapers = [0]\<rparr>
     = Some \<lparr>cache = \<lparr>entries = [''a'' \<mapsto> \<lparr>createdAt = 100, data = [1, 2]\<rparr>]\<rparr>,
              clock = 100, reapers = [0]\<rparr>
   \<and> run [Tick 299999999900, Wake 0 [''a''], CallGet ''a'']
        \<lparr>cache = \<lparr>entries = [''a'' \<mapsto> \<lparr>createdAt = 100, data = [1, 2]\<rparr>]\<rparr>,
         clock = 100, reapers = [0]\<rparr>
     = Some \<lparr>cache = \<lparr>entries = [''a'' \<mapsto> \<lparr>createdAt = 100, data = [1, 2]\<rparr>]\<rparr>,
              clock = 300000000000, reapers = [300000000000]\<rparr>
   \<and> fst (Get ''a'' \<lparr>entries = [''a'' \<mapsto> \<lparr>createdAt = 100, data = [1, 2]\<rparr>]\<rparr>)
     = Inr [1, 2]"
proof -
  let ?s0 = "\<lparr>cache = \<lparr>entries = Map.empty\<rparr>, clock = 100, reapers = [0]\<rparr>"
  let ?s1 = "\<lparr>cache = \<lparr>entries = [''a'' \<mapsto> \<lparr>createdAt = 100, data = [1, 2]\<rparr>]\<rparr>,
              clock = 100, reapers = [0]\<rparr>"
  let ?s2 = "\<lparr>cache = \<lparr>entries = [''a'' \<mapsto> \<lparr>createdAt = 100, data = [1, 2]\<rparr>]\<rparr>,
              clock = 300000000000, reapers = [300000000000]\<rparr>"
  let ?es = "[Tick 299999999900, Wake 0 [''a''], CallGet ''a'']"
  have 1: "exec (CallAdd ''a'' [1, 2]) ?s0 = Some ?s1"
    by (simp add: Add_def)
  have 2: "run ?es ?s1 = Some ?s2"
    by (simp add: model_defs)
  have 3: "\<forall>dat. CallAdd ''a'' dat \<notin> set ?es"
    by simp
  have 4: "clock ?s2 < clock ?s0 + ttl"
    by (simp add: ttl_def Minute_def)
  from not_reaped_before_stale [OF 1 2 3 4] 1 2 show ?thesis
    by simp
qed

text \<open>
  C4. Expiry upper bound: on a cache built by \<open>NewCache\<close>, an entry added at instant
  \<open>T\<close> and not added again is absent, \<open>Get\<close> returning the error "key not found", at
  every instant from \<open>T + ttl + sweepInterval + eps\<close> onward. Here \<open>eps\<close> is the
  scheduling slack: the loop that \<open>NewCache\<close> started is less than \<open>eps\<close> late at that
  instant (\<open>timely\<close>).
\<close>

theorem absent_after_ttl_and_sweep:
  assumes "run pre (NewCache t0) = Some s0"
      and "exec (CallAdd k p) s0 = Some s1"
      and "run es s1 = Some s2"
      and "\<forall>dat. CallAdd k dat \<notin> set es"
      and "timely eps s2"
      and "clock s0 + ttl + sweepInterval + eps \<le> clock s2"
    shows "fst (Get k (cache s2)) = Inl (Error ''key not found'')"
proof -
  from NewCache_loop0_started assms(1) have "loop0_started s0"
    by (rule run_loop0_started)
  moreover have "0 \<le> ttl" by (simp add: ttl_def Minute_def)
  ultimately have "pending k (clock s0) s1"
    using assms(2) by (auto simp: pending_def loop0_started_def Add_def)
  then have "pending k (clock s0) s2"
    using assms(3,4) by (rule run_pending)
  moreover from assms(5,6) have "clock s0 + ttl < reapers s2 ! 0"
    by (simp add: timely_def)
  ultimately have "entries (cache s2) k = None"
    by (auto simp: pending_def split: option.splits)
  then show ?thesis by (simp add: Get_def)
qed

theorem absent_after_ttl_and_sweep_witness:
  "run [] (NewCache 0) = Some (NewCache 0)
   \<and> exec (CallAdd ''a'' [1, 2]) (NewCache 0)
     = Some \<lparr>cache = \<lparr>entries = [''a'' \<mapsto> \<lparr>createdAt = 0, data = [1, 2]\<rparr>]\<rparr>,
              clock = 0, reapers = [0]\<rparr>
   \<and> run [Tick 300000000001, Wake 0 [''a''], Tick 300000000001]
        \<lparr>cache = \<lparr>entries = [''a'' \<mapsto> \<lparr>createdAt = 0, data = [1, 2]\<rparr>]\<rparr>,
         clock = 0, reapers = [0]\<rparr>
     = Some \<lparr>cache = \<lparr>entries = Map.empty\<rparr>, clock = 600000000002,
              reapers = [300000000001]\<rparr>
   \<and> timely 2 \<lparr>cache = \<lparr>entries = Map.empty\<rparr>, clock = 600000000002,
              reapers = [300000000001]\<rparr>
   \<and> fst (Get ''a'' \<lparr>entries = Map.empty\<rparr>) = Inl (Error ''key not found'')"
proof -
  let ?s1 = "\<lparr>cache = \<lparr>entries = [''a'' \<mapsto> \<lparr>createdAt = 0, data = [1, 2]\<rparr>]\<rparr>,
              clock = 0, reapers = [0]\<rparr>"
  let ?s2 = "\<lparr>cache = \<lparr>entries = Map.empty\<rparr>, clock = 600000000002,
              reapers = [300000000001]\<rparr>"
  let ?es = "[Tick 300000000001, Wake 0 [''a''], Tick 300000000001]"
  have 0: "run [] (NewCache 0) = Some (NewCache 0)"
    by simp
  have 1: "exec (CallAdd ''a'' [1, 2]) (NewCache 0) = Some ?s1"
    by (simp add: Add_def NewCache_def ReapLoop_def)
  have 2: "run ?es ?s1 = Some ?s2"
    by (simp add: model_defs)
  have 3: "\<forall>dat. CallAdd ''a'' dat \<notin> set ?es"
    by simp
  have 4: "timely 2 ?s2"
    by (simp add: timely_def sweepInterval_def Minute_def)
  have 5: "clock (NewCache 0) + ttl + sweepInterval + 2 \<le> clock ?s2"
    by (simp add: NewCache_def ReapLoop_def ttl_def sweepInterval_def Minute_def)
  from absent_after_ttl_and_sweep [OF 0 1 2 3 4 5] 0 1 2 4 show ?thesis
    by simp
qed

subsection \<open>Unknown keys\<close>

text \<open>
  C6. Miss on an unknown key: on a cache on which no \<open>Add\<close> of the key \<open>k\<close> was
  performed since \<open>NewCache\<close> built it, the freshly built cache included, \<open>Get\<close> of \<open>k\<close>
  returns the error "key not found" and no payload. The outcome is an ordinary return
  value: \<open>Get\<close> returns, and leaves the cache as it was.
\<close>

theorem get_unknown_key_not_found:
  assumes "run es (NewCache t0) = Some s"
      and "\<forall>dat. CallAdd k dat \<notin> set es"
    shows "fst (Get k (cache s)) = Inl (Error ''key not found'')
      \<and> snd (Get k (cache s)) = cache s"
proof -
  have "entries (cache (NewCache t0)) k = None"
    by (simp add: NewCache_def ReapLoop_def)
  then have "entries (cache s) k = None"
    using assms by (rule run_keeps_absent)
  then show ?thesis by (simp add: Get_def)
qed

theorem get_unknown_key_not_found_witness:
  "run [CallAdd ''b'' [7], Tick 5, CallGet ''a''] (NewCache 0)
     = Some \<lparr>cache = \<lparr>entries = [''b'' \<mapsto> \<lparr>createdAt = 0, data = [7]\<rparr>]\<rparr>,
              clock = 5, reapers = [0]\<rparr>
   \<and> fst (Get ''a'' \<lparr>entries = [''b'' \<mapsto> \<lparr>createdAt = 0, data = [7]\<rparr>]\<rparr>)
     = Inl (Error ''key not found'')"
proof -
  let ?es = "[CallAdd ''b'' [7], Tick 5, CallGet ''a'']"
  let ?s = "\<lparr>cache = \<lparr>entries = [''b'' \<mapsto> \<lparr>createdAt = 0, data = [7]\<rparr>]\<rparr>,
              clock = 5, reapers = [0]\<rparr>"
  have 1: "run ?es (NewCache 0) = Some ?s"
    by (simp add: model_defs)
  have 2: "\<forall>dat. CallAdd ''a'' dat \<notin> set ?es"
    by simp
  from get_unknown_key_not_found [OF 1 2] 1 show ?thesis
    by simp
qed

subsection \<open>The number of running loops\<close>

text \<open>
  C9, as the source has it: \<open>NewCache\<close> starts the loop: the cache it returns has
  exactly one running \<open>ReapLoop\<close>. The method is exported and has no guard, so it can
  be started again on the same cache: after any run the cache has one running loop for
  the start by \<open>NewCache\<close> and one more for each later start, hence exactly one when
  \<open>ReapLoop\<close> is never called again.
\<close>

theorem one_reaper_per_start:
  "length (reapers (NewCache t0)) = 1
   \<and> (run es (NewCache t0) = Some s \<longrightarrow>
        length (reapers s) = 1 + count_list es CallReapLoop)"
proof -
  have "length (reapers (NewCache t0)) = 1"
    by (simp add: NewCache_def ReapLoop_def)
  then show ?thesis
    by (auto dest: run_reapers_length)
qed

theorem one_reaper_per_start_witness:
  "run [CallAdd ''a'' [1], Tick 300000000000, Wake 0 [''a'']] (NewCache 0)
     = Some \<lparr>cache = \<lparr>entries = [''a'' \<mapsto> \<lparr>createdAt = 0, data = [1]\<rparr>]\<rparr>,
              clock = 300000000000, reapers = [300000000000]\<rparr>
   \<and> length (reapers \<lparr>cache = \<lparr>entries = [''a'' \<mapsto> \<lparr>createdAt = 0, data = [1]\<rparr>]\<rparr>,
              clock = 300000000000, reapers = [300000000000]\<rparr>) = 1"
proof -
  let ?es = "[CallAdd ''a'' [1], Tick 300000000000, Wake 0 [''a'']]"
  have 1: "run ?es (NewCache 0)
     = Some \<lparr>cache = \<lparr>entries = [''a'' \<mapsto> \<lparr>createdAt = 0, data = [1]\<rparr>]\<rparr>,
              clock = 300000000000, reapers = [300000000000]\<rparr>"
    by (simp add: model_defs)
  from one_reaper_per_start [of 0 ?es] 1 show ?thesis
    by simp
qed

text \<open>
  C9, as the specification states it (at most one running loop for a cache over its
  lifetime), fails: one call of \<open>ReapLoop\<close> on a freshly built cache is a step of the system and
  leaves two running loops.
\<close>

theorem second_reap_loop_counterexample:
  "run [CallReapLoop] (NewCache 0)
     = Some \<lparr>cache = \<lparr>entries = Map.empty\<rparr>, clock = 0, reapers = [0, 0]\<rparr>
   \<and> \<not> length (reapers \<lparr>cache = \<lparr>entries = Map.empty\<rparr>, clock = 0, reapers = [0, 0]\<rparr>) \<le> 1"
  by (simp add: NewCache_def ReapLoop_def)

end
